theory Spec2Isabelle
  imports Main
begin

section \<open>The declaration list of blockly-local-variable\<close>

text \<open>
  The development embeds the class \<open>DeclarationList\<close> (file \<open>declaration_list.ts\<close>):
  its element type \<open>Declaration\<close>, the registry \<open>this.list\<close>, and the four methods
  \<open>addInitialListValues\<close>, \<open>getAccessibleDeclarations\<close>, \<open>declare\<close> and
  \<open>getCategoryXML\<close>. The registry is passed explicitly; a method that mutates it
  returns the new registry.

  Blockly's object graph (blocks, workspaces, the XML parser) is not part of the
  repository. It is a parameter of every function: a store that maps object references
  to the properties the code reads. Nothing is assumed about the store; parents and
  children need not agree, and parent chains may be cyclic.
\<close>

subsection \<open>Data\<close>

text \<open>The element type \<open>Declaration\<close>: \<open>{id: string, wid: string, name?: string}\<close>.\<close>

record Declaration =
  id_decl :: string
  wid :: string
  name :: "string option"

text \<open>References to host objects; \<open>indexOf\<close> compares blocks by reference.\<close>

type_synonym bref = nat
type_synonym wref = nat

text \<open>
  What the code reads of a \<open>Blockly.Block\<close>: \<open>id\<close>, \<open>workspace\<close> (tested against null
  by \<open>declare\<close>), \<open>getParent()\<close>, \<open>getChildren(true)\<close>, \<open>isInFlyout\<close> and
  \<open>getFieldValue(name)\<close>.
\<close>

record Block =
  id_block :: string
  workspace :: "wref option"
  getParent :: "bref option"
  getChildren :: "bref list"
  isInFlyout :: bool
  getFieldValue :: "string \<Rightarrow> string option"

text \<open>What the code reads of a \<open>Blockly.Workspace\<close>: \<open>id\<close>, \<open>getTopBlocks(true)\<close>,
  \<open>getBlockById(id)\<close>.\<close>

record Workspace =
  id_ws :: string
  getTopBlocks :: "bref list"
  getBlockById :: "string \<Rightarrow> bref option"

text \<open>A parsed XML element; \<open>Blockly.Xml.textToDom\<close> is the host's parser.\<close>

datatype Element = Dom string

text \<open>
  The host: the block and workspace stores, \<open>Blockly.Workspace.getById\<close> and
  \<open>Blockly.Xml.textToDom\<close> (\<open>None\<close> when the parser throws).
\<close>

record Host =
  blockAt :: "bref \<Rightarrow> Block"
  workspaceAt :: "wref \<Rightarrow> Workspace"
  getById :: "string \<Rightarrow> wref option"
  textToDom :: "string \<Rightarrow> Element option"

text \<open>
  Reading a property of \<open>null\<close> throws a \<open>TypeError\<close>; a parse failure of
  \<open>textToDom\<close> throws as well.
\<close>

datatype error = TypeError | ParseError

subsection \<open>addInitialListValues\<close>

text \<open>\<open>this.list = this.list.concat(list)\<close>\<close>

definition addInitialListValues :: "Declaration list \<Rightarrow> Declaration list \<Rightarrow> Declaration list" where
  "addInitialListValues this_list list = this_list @ list"

subsection \<open>getAccessibleDeclarations\<close>

definition max_iter :: nat where
  "max_iter = 100"

text \<open>\<open>Array.prototype.indexOf\<close>: the first index of the element, or \<open>-1\<close>.\<close>

fun indexOf :: "'a list \<Rightarrow> 'a \<Rightarrow> int" where
  "indexOf [] x = -1"
| "indexOf (y # ys) x =
     (if y = x then 0
      else (let k = indexOf ys x in if k = -1 then -1 else k + 1))"

text \<open>\<open>this.list.find(value => value.id === b.id)\<close>, as the truth value the filter reads.\<close>

definition isDeclared :: "Host \<Rightarrow> Declaration list \<Rightarrow> bref \<Rightarrow> bool" where
  "isDeclared h this_list b =
     (find (\<lambda>v. id_decl v = id_block (blockAt h b)) this_list \<noteq> None)"

text \<open>
  \<open>.map(b => {return {id: b.id, wid: b.workspace.id}})\<close>: the first block whose
  \<open>workspace\<close> is null throws.
\<close>

fun toDecls :: "Host \<Rightarrow> bref list \<Rightarrow> error + Declaration list" where
  "toDecls h [] = Inr []"
| "toDecls h (b # bs) =
     (case workspace (blockAt h b) of
        None \<Rightarrow> Inl TypeError
      | Some w \<Rightarrow>
          (case toDecls h bs of
             Inl e \<Rightarrow> Inl e
           | Inr ds \<Rightarrow>
               Inr (\<lparr>id_decl = id_block (blockAt h b),
                      wid = id_ws (workspaceAt h w),
                      name = None\<rparr> # ds)))"

text \<open>
  One pass of the loop body up to \<open>vars\<close>:
  \<open>index = blocks.indexOf(block)\<close>, then the filter on \<open>(b, i)\<close> and the map.
\<close>

definition levelVars :: "Host \<Rightarrow> Declaration list \<Rightarrow> bref list \<Rightarrow> bref \<Rightarrow> error + Declaration list" where
  "levelVars h this_list blocks block =
     (let index = indexOf blocks block
      in toDecls h
           (map snd
              (filter (\<lambda>(i, b). (int i \<le> index \<or> index = -1) \<and> isDeclared h this_list b)
                 (enumerate 0 blocks))))"

text \<open>
  The \<open>for\<close> loop, on its state \<open>(iter, block, parent, result)\<close>. It returns the final
  \<open>iter\<close> and \<open>result\<close>: the caller tests \<open>iter >= max_iter\<close>. With \<open>parent\<close> null
  the siblings are \<open>block.workspace.getTopBlocks(true)\<close>, and the loop breaks after
  that pass.
\<close>

function loop :: "Host \<Rightarrow> Declaration list \<Rightarrow> nat \<Rightarrow> bref \<Rightarrow> bref option \<Rightarrow> Declaration list
    \<Rightarrow> error + (nat \<times> Declaration list)" where
  "loop h this_list iter block parent result =
     (if iter < max_iter then
        (case (case parent of
                 Some p \<Rightarrow> Inr (getChildren (blockAt h p))
               | None \<Rightarrow>
                   (case workspace (blockAt h block) of
                      None \<Rightarrow> Inl TypeError
                    | Some w \<Rightarrow> Inr (getTopBlocks (workspaceAt h w)))) of
           Inl e \<Rightarrow> Inl e
         | Inr blocks \<Rightarrow>
             (case levelVars h this_list blocks block of
                Inl e \<Rightarrow> Inl e
              | Inr vars \<Rightarrow>
                  (case parent of
                     None \<Rightarrow> Inr (iter, result @ vars)
                   | Some p \<Rightarrow>
                       loop h this_list (Suc iter) p (getParent (blockAt h p)) (result @ vars))))
      else Inr (iter, result))"
  by pat_completeness auto
termination
  by (relation "measure (\<lambda>(h, this_list, iter, block, parent, result). max_iter - iter)") auto

declare loop.simps [simp del]

definition getAccessibleDeclarations :: "Host \<Rightarrow> Declaration list \<Rightarrow> bref \<Rightarrow> error + Declaration list" where
  "getAccessibleDeclarations h this_list block =
     (case getParent (blockAt h block) of
        None \<Rightarrow> Inr this_list
      | Some p \<Rightarrow>
          (case loop h this_list 0 block (Some p) [] of
             Inl e \<Rightarrow> Inl e
           | Inr (iter, result) \<Rightarrow>
               if iter \<ge> max_iter then Inr this_list else Inr result))"

subsection \<open>declare (here \<open>declare_block\<close>: \<open>declare\<close> is a keyword)\<close>

text \<open>
  The argument of \<open>declare\<close> may be null (\<open>None\<close>). \<open>samename\<close> is computed as the
  source computes it; the branch it guards is \<open>samename && false\<close>.
\<close>

text \<open>
  \<open>this.list.find(({id}) => { const _block = workspace.getBlockById(id);
  return _block !== null && _block.getFieldValue("name") === name; })\<close>
\<close>

definition samename :: "Host \<Rightarrow> wref \<Rightarrow> string option \<Rightarrow> Declaration list \<Rightarrow> Declaration option" where
  "samename h w name' this_list =
     find (\<lambda>d. case getBlockById (workspaceAt h w) (id_decl d) of
                  None \<Rightarrow> False
                | Some b' \<Rightarrow> getFieldValue (blockAt h b') ''name'' = name')
       this_list"

definition declare_block :: "Host \<Rightarrow> bref option \<Rightarrow> Declaration list \<Rightarrow> error + Declaration list" where
  "declare_block h block this_list =
     (case block of
        None \<Rightarrow> Inr this_list
      | Some b \<Rightarrow>
          if isInFlyout (blockAt h b) then Inr this_list
          else
            (case workspace (blockAt h b) of
               None \<Rightarrow> Inr this_list
             | Some w \<Rightarrow>
                 (let name' = getFieldValue (blockAt h b) ''name''
                  in if find (\<lambda>d. id_decl d = id_block (blockAt h b)) this_list \<noteq> None
                     then Inr this_list
                     else if samename h w name' this_list \<noteq> None \<and> False
                     then Inr this_list
                     else Inr (this_list @
                            [\<lparr>id_decl = id_block (blockAt h b),
                              wid = id_ws (workspaceAt h w),
                              name = None\<rparr>]))))"

text \<open>The hook firing \<open>n\<close> times for one block: \<open>n\<close> calls in a row.\<close>

fun declareTimes :: "Host \<Rightarrow> bref option \<Rightarrow> nat \<Rightarrow> Declaration list \<Rightarrow> error + Declaration list" where
  "declareTimes h block 0 this_list = Inr this_list"
| "declareTimes h block (Suc n) this_list =
     (case declare_block h block this_list of
        Inl e \<Rightarrow> Inl e
      | Inr list' \<Rightarrow> declareTimes h block n list')"

text \<open>How many entries of the registry carry the id of a block.\<close>

definition entriesFor :: "Host \<Rightarrow> bref \<Rightarrow> Declaration list \<Rightarrow> nat" where
  "entriesFor h b this_list =
     length (filter (\<lambda>d. id_decl d = id_block (blockAt h b)) this_list)"

subsection \<open>getCategoryXML\<close>


text \<open>\<open>id === "" && name\<close>: the name is present and not the empty string.\<close>

definition isPrimitive :: "Declaration \<Rightarrow> bool" where
  "isPrimitive d = (id_decl d = [] \<and> (case name d of None \<Rightarrow> False | Some n \<Rightarrow> n \<noteq> []))"





subsection \<open>The ancestor walk, described without the loop\<close>

text \<open>
  The definitions of this subsection are not code of the repository. They name what the
  theorems speak about: the ancestors of a block, the sibling list the loop computes for
  a block, and the part of it the filter keeps.
\<close>

text \<open>The \<open>n\<close>-th ancestor of a block (\<open>getParent\<close> applied \<open>n\<close> times), if the chain
  is that long.\<close>

fun nthAncestor :: "Host \<Rightarrow> nat \<Rightarrow> bref \<Rightarrow> bref option" where
  "nthAncestor h 0 b = Some b"
| "nthAncestor h (Suc n) b =
     (case getParent (blockAt h b) of None \<Rightarrow> None | Some p \<Rightarrow> nthAncestor h n p)"

text \<open>A block followed by its first \<open>n\<close> ancestors, innermost first, as far as they exist.\<close>

fun ancestors :: "Host \<Rightarrow> nat \<Rightarrow> bref \<Rightarrow> bref list" where
  "ancestors h 0 b = [b]"
| "ancestors h (Suc n) b =
     b # (case getParent (blockAt h b) of None \<Rightarrow> [] | Some p \<Rightarrow> ancestors h n p)"

text \<open>
  The sibling list of a level: the children of the parent, or the top blocks of the
  block's workspace when there is no parent (the code throws when that workspace is
  null; the list is then empty here).
\<close>

definition siblingsOf :: "Host \<Rightarrow> bref \<Rightarrow> bref list" where
  "siblingsOf h a =
     (case getParent (blockAt h a) of
        Some p \<Rightarrow> getChildren (blockAt h p)
      | None \<Rightarrow>
          (case workspace (blockAt h a) of
             Some w \<Rightarrow> getTopBlocks (workspaceAt h w)
           | None \<Rightarrow> []))"

text \<open>The siblings at or before the block's index; all of them when it is not among them.\<close>

definition upTo :: "bref list \<Rightarrow> bref \<Rightarrow> bref list" where
  "upTo blocks a =
     (if a \<in> set blocks then take (Suc (nat (indexOf blocks a))) blocks else blocks)"

definition scopeAt :: "Host \<Rightarrow> Declaration list \<Rightarrow> bref \<Rightarrow> bref list" where
  "scopeAt h this_list a = filter (isDeclared h this_list) (upTo (siblingsOf h a) a)"

text \<open>The entry the map builds for a block that has a workspace.\<close>

definition toDecl :: "Host \<Rightarrow> bref \<Rightarrow> Declaration" where
  "toDecl h b =
     \<lparr>id_decl = id_block (blockAt h b),
      wid = id_ws (workspaceAt h (the (workspace (blockAt h b)))),
      name = None\<rparr>"

text \<open>
  Blockly types \<open>workspace\<close> as non-null on a block that is not disposed, and a
  disposed block is nobody's child. This is that property of the host.
\<close>

definition hasWorkspaces :: "Host \<Rightarrow> bool" where
  "hasWorkspaces h = (\<forall>b. workspace (blockAt h b) \<noteq> None)"

subsection \<open>The category, described without the loop\<close>



subsection \<open>Example hosts\<close>

text \<open>A block of workspace \<open>0\<close>, outside the flyout, with no fields.\<close>

definition mkBlock :: "string \<Rightarrow> bref option \<Rightarrow> bref list \<Rightarrow> Block" where
  "mkBlock i p cs =
     \<lparr>id_block = i, workspace = Some 0, getParent = p, getChildren = cs,
      isInFlyout = False, getFieldValue = (\<lambda>f. None)\<rparr>"

definition mkHost :: "(bref \<Rightarrow> Block) \<Rightarrow> bref list \<Rightarrow> (string \<Rightarrow> bref option) \<Rightarrow> Host" where
  "mkHost bs tops byId =
     \<lparr>blockAt = bs,
      workspaceAt = (\<lambda>w. \<lparr>id_ws = ''w'', getTopBlocks = tops, getBlockById = byId\<rparr>),
      getById = (\<lambda>i. if i = ''w'' then Some 0 else None),
      textToDom = (\<lambda>s. Some (Dom s))\<rparr>"

definition decl :: "string \<Rightarrow> Declaration" where
  "decl i = \<lparr>id_decl = i, wid = ''w'', name = None\<rparr>"

definition primitive :: "string \<Rightarrow> Declaration" where
  "primitive n = \<lparr>id_decl = [], wid = [], name = Some n\<rparr>"


text \<open>
  The parent \<open>p\<close> (block 0, a top block) has the children \<open>a, b, c, d\<close> (blocks 1 to
  4); block 5 names \<open>p\<close> as its parent and is not among its children; block 6 is a
  second top block.
\<close>

definition hostABCD :: Host where
  "hostABCD =
     mkHost (\<lambda>r. if r = 0 then mkBlock ''p'' None [1, 2, 3, 4]
                 else if r = 1 then mkBlock ''a'' (Some 0) []
                 else if r = 2 then mkBlock ''b'' (Some 0) []
                 else if r = 3 then mkBlock ''c'' (Some 0) []
                 else if r = 4 then mkBlock ''d'' (Some 0) []
                 else if r = 5 then mkBlock ''e'' (Some 0) []
                 else mkBlock ''t'' None [])
       [0, 6]
       (\<lambda>i. if i = ''a'' then Some 1 else None)"

definition regABD :: "Declaration list" where
  "regABD = [decl ''a'', decl ''b'', decl ''d'']"

text \<open>Every block is its own parent and child.\<close>

definition hostCycle :: Host where
  "hostCycle = mkHost (\<lambda>r. mkBlock ''b'' (Some r) [r]) [] (\<lambda>i. None)"

text \<open>Block \<open>r\<close> has the parent \<open>r + 1\<close> up to block 100, which has none.\<close>

definition hostDeep :: Host where
  "hostDeep =
     mkHost (\<lambda>r. mkBlock ''b'' (if r < 100 then Some (Suc r) else None) [r - 1])
       [100] (\<lambda>i. None)"

text \<open>
  Block 1 is \<open>b1\<close> (field \<open>name\<close> is \<open>x\<close>), block 2 is \<open>b2\<close> with the same name, block
  3 is in the flyout, block 4 has no workspace; all are top blocks.
\<close>

definition hostTop :: Host where
  "hostTop =
     mkHost (\<lambda>r. if r = 1 then (mkBlock ''b1'' None [])
                                 \<lparr>getFieldValue := (\<lambda>f. if f = ''name'' then Some ''x'' else None)\<rparr>
                 else if r = 2 then (mkBlock ''b2'' None [])
                                 \<lparr>getFieldValue := (\<lambda>f. if f = ''name'' then Some ''x'' else None)\<rparr>
                 else if r = 3 then (mkBlock ''f'' None []) \<lparr>isInFlyout := True\<rparr>
                 else if r = 4 then (mkBlock ''g'' None []) \<lparr>workspace := None\<rparr>
                 else mkBlock ''q'' None [])
       [1, 2]
       (\<lambda>i. if i = ''b1'' then Some 1 else if i = ''b2'' then Some 2 else None)"

text \<open>
  The block \<open>p\<close> (block 0, the only top block) holds the sequence \<open>b1\<close> (block 1), then
  the getter (block 3).
\<close>

definition hostNested :: Host where
  "hostNested =
     mkHost (\<lambda>r. if r = 0 then mkBlock ''p'' None [1, 3]
                 else if r = 1 then (mkBlock ''b1'' (Some 0) [])
                                 \<lparr>getFieldValue := (\<lambda>f. if f = ''name'' then Some ''x'' else None)\<rparr>
                 else mkBlock ''getter'' (Some 0) [])
       [0]
       (\<lambda>i. if i = ''b1'' then Some 1 else None)"

section \<open>Lemmas\<close>

subsection \<open>indexOf and the filter on indices\<close>

lemma indexOf_ge: "-1 \<le> indexOf xs x"
  by (induction xs) (auto simp: Let_def)

lemma indexOf_absent: "indexOf xs x = -1 \<longleftrightarrow> x \<notin> set xs"
proof (induction xs)
  case Nil
  show ?case by simp
next
  case (Cons y ys)
  have "-1 \<le> indexOf ys x" by (rule indexOf_ge)
  with Cons show ?case by (auto simp: Let_def)
qed

lemma indexOf_nonneg: "x \<in> set xs \<Longrightarrow> 0 \<le> indexOf xs x"
  using indexOf_ge [of xs x] indexOf_absent [of xs x] by arith

text \<open>\<open>indexOf\<close> is the position of the first occurrence.\<close>

lemma indexOf_first:
  "x \<in> set xs \<Longrightarrow>
     nat (indexOf xs x) < length xs \<and> xs ! nat (indexOf xs x) = x
       \<and> x \<notin> set (take (nat (indexOf xs x)) xs)"
proof (induction xs)
  case Nil
  then show ?case by simp
next
  case (Cons y ys)
  show ?case
  proof (cases "y = x")
    case True
    then show ?thesis by simp
  next
    case False
    with Cons.prems have in_ys: "x \<in> set ys" by simp
    have nn: "0 \<le> indexOf ys x" using in_ys by (rule indexOf_nonneg)
    have "nat (indexOf ys x + 1) = Suc (nat (indexOf ys x))" using nn by simp
    with False Cons.IH [OF in_ys] nn show ?thesis by (simp add: Let_def)
  qed
qed

lemma filter_enumerate_le:
  "map snd (filter (\<lambda>(i, b). int i \<le> k \<and> P b) (enumerate n xs))
     = filter P (take (nat (k + 1 - int n)) xs)"
proof (induction xs arbitrary: n)
  case Nil
  show ?case by simp
next
  case (Cons x xs)
  show ?case
  proof (cases "int n \<le> k")
    case True
    then have "nat (k + 1 - int n) = Suc (nat (k + 1 - int (Suc n)))" by simp
    with True Cons.IH [of "Suc n"] show ?thesis by simp
  next
    case False
    then have "nat (k + 1 - int n) = 0" "nat (k + 1 - int (Suc n)) = 0" by simp_all
    with False Cons.IH [of "Suc n"] show ?thesis by simp
  qed
qed

lemma filter_enumerate_all:
  "map snd (filter (\<lambda>(i, b). P b) (enumerate n xs)) = filter P xs"
  by (induction xs arbitrary: n) simp_all

lemma isDeclared_iff:
  "isDeclared h this_list b \<longleftrightarrow> id_block (blockAt h b) \<in> id_decl ` set this_list"
  by (force simp: isDeclared_def find_None_iff)

subsection \<open>One pass of the loop\<close>

lemma levelVars_upTo:
  "levelVars h this_list blocks a = toDecls h (filter (isDeclared h this_list) (upTo blocks a))"
proof (cases "a \<in> set blocks")
  case True
  then have nn: "0 \<le> indexOf blocks a" by (rule indexOf_nonneg)
  then have ne: "indexOf blocks a \<noteq> -1" by simp
  have "nat (indexOf blocks a + 1 - int 0) = Suc (nat (indexOf blocks a))" using nn by simp
  with True ne filter_enumerate_le [of "indexOf blocks a" "isDeclared h this_list" 0 blocks]
  show ?thesis by (simp add: levelVars_def upTo_def)
next
  case False
  then have "indexOf blocks a = -1" by (simp add: indexOf_absent)
  with False filter_enumerate_all [of "isDeclared h this_list" 0 blocks]
  show ?thesis by (simp add: levelVars_def upTo_def)
qed

lemma toDecls_Inr: "toDecls h bs = Inr ds \<Longrightarrow> ds = map (toDecl h) bs"
  by (induction bs arbitrary: ds) (auto simp: toDecl_def split: option.splits sum.splits)

lemma toDecls_total:
  "(\<forall>b \<in> set bs. workspace (blockAt h b) \<noteq> None) \<Longrightarrow> toDecls h bs = Inr (map (toDecl h) bs)"
  by (induction bs) (auto simp: toDecl_def split: option.splits sum.splits)

subsection \<open>The loop\<close>

text \<open>When the chain ends within the bound, the loop breaks and has collected every level.\<close>

lemma loop_scoped:
  "loop h this_list iter a (getParent (blockAt h a)) res = Inr (it, r) \<Longrightarrow>
   nthAncestor h (max_iter - iter) a = None \<Longrightarrow>
   it < max_iter \<and>
   r = res @ map (toDecl h) (concat (map (scopeAt h this_list) (ancestors h (max_iter - iter) a)))"
proof (induction "max_iter - iter" arbitrary: iter a res)
  case 0
  then show ?case by simp
next
  case (Suc n)
  from Suc.hyps(2) have lt: "iter < max_iter" and n: "max_iter - Suc iter = n"
    and m: "max_iter - iter = Suc n" by arith+
  show ?case
  proof (cases "getParent (blockAt h a)")
    case None
    with Suc.prems(1) lt obtain w vars where
      w: "workspace (blockAt h a) = Some w"
      and vars: "levelVars h this_list (getTopBlocks (workspaceAt h w)) a = Inr vars"
      and res: "it = iter" "r = res @ vars"
      by (subst (asm) loop.simps) (auto split: option.splits sum.splits)
    from vars have "vars = map (toDecl h) (scopeAt h this_list a)"
      using None w by (simp add: levelVars_upTo scopeAt_def siblingsOf_def toDecls_Inr)
    with res lt None m show ?thesis by simp
  next
    case (Some p)
    with Suc.prems(1) lt obtain vars where
      vars: "levelVars h this_list (getChildren (blockAt h p)) a = Inr vars"
      and rec: "loop h this_list (Suc iter) p (getParent (blockAt h p)) (res @ vars) = Inr (it, r)"
      by (subst (asm) loop.simps) (auto split: option.splits sum.splits)
    from vars have v: "vars = map (toDecl h) (scopeAt h this_list a)"
      using Some by (simp add: levelVars_upTo scopeAt_def siblingsOf_def toDecls_Inr)
    from Suc.prems(2) Some m have "nthAncestor h (max_iter - Suc iter) p = None"
      by (simp add: n)
    from Suc.hyps(1) [OF n [symmetric] rec this] v Some m n show ?thesis by simp
  qed
qed

text \<open>When the chain has \<open>max_iter - iter\<close> more ancestors, the loop runs out of passes.\<close>

lemma loop_bound:
  "loop h this_list iter a (getParent (blockAt h a)) res = Inr (it, r) \<Longrightarrow>
   nthAncestor h (max_iter - iter) a \<noteq> None \<Longrightarrow> max_iter \<le> it"
proof (induction "max_iter - iter" arbitrary: iter a res)
  case 0
  then have "\<not> iter < max_iter" by simp
  with "0.prems"(1) show ?case by (subst (asm) loop.simps) simp
next
  case (Suc n)
  from Suc.hyps(2) have lt: "iter < max_iter" and n: "max_iter - Suc iter = n"
    and m: "max_iter - iter = Suc n" by arith+
  from Suc.prems(2) m obtain p where p: "getParent (blockAt h a) = Some p"
    and anc: "nthAncestor h n p \<noteq> None"
    by (auto split: option.splits)
  with Suc.prems(1) lt obtain vars where
    rec: "loop h this_list (Suc iter) p (getParent (blockAt h p)) (res @ vars) = Inr (it, r)"
    by (subst (asm) loop.simps) (auto split: option.splits sum.splits)
  from anc n have "nthAncestor h (max_iter - Suc iter) p \<noteq> None" by simp
  from Suc.hyps(1) [OF n [symmetric] rec this] show ?case .
qed

text \<open>On a host whose blocks have workspaces no pass throws.\<close>

lemma loop_returns:
  "hasWorkspaces h \<Longrightarrow> \<exists>it r. loop h this_list iter a parent res = Inr (it, r)"
proof (induction "max_iter - iter" arbitrary: iter a parent res)
  case 0
  then have "\<not> iter < max_iter" by simp
  then show ?case by (subst loop.simps) simp
next
  case (Suc n)
  from Suc.hyps(2) have lt: "iter < max_iter" and n: "n = max_iter - Suc iter" by arith+
  have ws: "\<And>b. \<exists>w. workspace (blockAt h b) = Some w"
    using Suc.prems by (auto simp: hasWorkspaces_def)
  have lv: "\<And>blocks. levelVars h this_list blocks a
      = Inr (map (toDecl h) (filter (isDeclared h this_list) (upTo blocks a)))"
    using Suc.prems by (simp add: levelVars_upTo toDecls_total hasWorkspaces_def)
  show ?case
  proof (cases parent)
    case None
    from ws [of a] obtain w where "workspace (blockAt h a) = Some w" by blast
    with None lt lv show ?thesis by (subst loop.simps) simp
  next
    case (Some p)
    from Suc.hyps(1) [OF n Suc.prems]
    obtain it r where "loop h this_list (Suc iter) p (getParent (blockAt h p))
        (res @ map (toDecl h) (filter (isDeclared h this_list) (upTo (getChildren (blockAt h p)) a)))
          = Inr (it, r)"
      by blast
    with Some lt lv show ?thesis by (subst loop.simps) simp
  qed
qed

text \<open>The counter never passes the bound.\<close>

lemma loop_iter_le:
  "loop h this_list iter a parent res = Inr (it, r) \<Longrightarrow> iter \<le> max_iter \<Longrightarrow> it \<le> max_iter"
proof (induction "max_iter - iter" arbitrary: iter a parent res)
  case 0
  then have "\<not> iter < max_iter" by simp
  with "0.prems" show ?case by (subst (asm) loop.simps) simp
next
  case (Suc n)
  from Suc.hyps(2) have lt: "iter < max_iter" and n: "n = max_iter - Suc iter" by arith+
  show ?case
  proof (cases parent)
    case None
    with Suc.prems(1) lt have "it = iter"
      by (subst (asm) loop.simps) (auto split: option.splits sum.splits)
    with lt show ?thesis by simp
  next
    case (Some p)
    with Suc.prems(1) lt obtain vars where
      "loop h this_list (Suc iter) p (getParent (blockAt h p)) (res @ vars) = Inr (it, r)"
      by (subst (asm) loop.simps) (auto split: option.splits sum.splits)
    from Suc.hyps(1) [OF n this] lt show ?thesis by simp
  qed
qed

subsection \<open>getAccessibleDeclarations on a nested block\<close>

lemma scoped_result:
  assumes ret: "getAccessibleDeclarations h this_list block = Inr r"
    and par: "getParent (blockAt h block) \<noteq> None"
    and fin: "nthAncestor h max_iter block = None"
  shows "r = map (toDecl h) (concat (map (scopeAt h this_list) (ancestors h max_iter block)))"
proof -
  from par obtain p where p: "getParent (blockAt h block) = Some p" by blast
  with ret obtain it r' where
    l: "loop h this_list 0 block (getParent (blockAt h block)) [] = Inr (it, r')"
    and r: "r = (if max_iter \<le> it then this_list else r')"
    by (auto simp: getAccessibleDeclarations_def split: sum.splits if_splits)
  from loop_scoped [OF l] fin r show ?thesis by simp
qed

lemma returns_Inr:
  assumes "hasWorkspaces h"
  shows "\<exists>r. getAccessibleDeclarations h this_list block = Inr r"
proof (cases "getParent (blockAt h block)")
  case None
  then show ?thesis by (simp add: getAccessibleDeclarations_def)
next
  case (Some p)
  from loop_returns [OF assms, of this_list 0 block "Some p" "[]"]
  obtain it r where "loop h this_list 0 block (Some p) [] = Inr (it, r)" by blast
  with Some show ?thesis by (simp add: getAccessibleDeclarations_def)
qed

lemma scoped_total:
  assumes "hasWorkspaces h"
    and "getParent (blockAt h block) \<noteq> None"
    and "nthAncestor h max_iter block = None"
  shows "getAccessibleDeclarations h this_list block
    = Inr (map (toDecl h) (concat (map (scopeAt h this_list) (ancestors h max_iter block))))"
proof -
  from returns_Inr [OF assms(1)] obtain r where
    r: "getAccessibleDeclarations h this_list block = Inr r" by blast
  from scoped_result [OF r assms(2) assms(3)] r show ?thesis by simp
qed

text \<open>The levels of the walk, split at level \<open>k\<close>.\<close>

lemma levels_split:
  assumes "k < length as"
  shows "map f (concat (map g as))
    = map f (concat (map g (take k as))) @ map f (g (as ! k))
        @ map f (concat (map g (drop (Suc k) as)))"
proof -
  from assms have "as = take k as @ as ! k # drop (Suc k) as" by (rule id_take_nth_drop)
  then have "concat (map g as) = concat (map g (take k as @ as ! k # drop (Suc k) as))"
    by simp
  then show ?thesis by simp
qed

section \<open>The claims\<close>

subsection \<open>C1: siblings at or before the block's index\<close>

text \<open>
  Claim C1. For a block that has a parent, on a walk that ends within the bound,
  \<open>getAccessibleDeclarations\<close> contributes at every level \<open>k\<close> at which the current
  block \<open>a\<close> is found in its sibling list exactly the registered siblings at or before
  the index of \<open>a\<close>, in sibling order, between the contributions of the levels below
  and above. With the children \<open>[A, B, C, D]\<close> of which \<open>A, B, D\<close> are registered, the
  query from \<open>D\<close> gives \<open>[A, B, D]\<close> and the query from \<open>C\<close> gives \<open>[A, B]\<close> (the
  example that follows).
\<close>

theorem siblings_up_to_index:
  assumes "hasWorkspaces h"
    and "getParent (blockAt h block) \<noteq> None"
    and "nthAncestor h max_iter block = None"
    and "k < length (ancestors h max_iter block)"
    and "a = ancestors h max_iter block ! k"
    and "a \<in> set (siblingsOf h a)"
  shows "getAccessibleDeclarations h this_list block =
     Inr (map (toDecl h) (concat (map (scopeAt h this_list) (take k (ancestors h max_iter block))))
          @ map (toDecl h)
              (filter (isDeclared h this_list)
                 (take (Suc (nat (indexOf (siblingsOf h a) a))) (siblingsOf h a)))
          @ map (toDecl h)
              (concat (map (scopeAt h this_list) (drop (Suc k) (ancestors h max_iter block)))))"
proof -
  from assms(5) assms(6)
  have "scopeAt h this_list (ancestors h max_iter block ! k)
      = filter (isDeclared h this_list)
          (take (Suc (nat (indexOf (siblingsOf h a) a))) (siblingsOf h a))"
    by (simp add: scopeAt_def upTo_def)
  with levels_split [OF assms(4), of "toDecl h" "scopeAt h this_list"]
    scoped_total [OF assms(1) assms(2) assms(3), of this_list]
  show ?thesis by simp
qed

theorem siblings_up_to_index_witness:
  "hasWorkspaces hostABCD
   \<and> getParent (blockAt hostABCD 4) \<noteq> None \<and> getParent (blockAt hostABCD 3) \<noteq> None
   \<and> nthAncestor hostABCD max_iter 4 = None \<and> nthAncestor hostABCD max_iter 3 = None
   \<and> ancestors hostABCD max_iter 4 ! 0 = 4 \<and> ancestors hostABCD max_iter 3 ! 0 = 3
   \<and> siblingsOf hostABCD 4 = [1, 2, 3, 4] \<and> siblingsOf hostABCD 3 = [1, 2, 3, 4]
   \<and> regABD = [toDecl hostABCD 1, toDecl hostABCD 2, toDecl hostABCD 4]
   \<and> getAccessibleDeclarations hostABCD regABD 4 = Inr [decl ''a'', decl ''b'', decl ''d'']
   \<and> getAccessibleDeclarations hostABCD regABD 3 = Inr [decl ''a'', decl ''b'']"
proof -
  have ws: "hasWorkspaces hostABCD"
    by (simp add: hasWorkspaces_def hostABCD_def mkHost_def mkBlock_def)
  have p4: "getParent (blockAt hostABCD 4) \<noteq> None" by code_simp
  have p3: "getParent (blockAt hostABCD 3) \<noteq> None" by code_simp
  have n4: "nthAncestor hostABCD max_iter 4 = None" by code_simp
  have n3: "nthAncestor hostABCD max_iter 3 = None" by code_simp
  have k4: "0 < length (ancestors hostABCD max_iter 4)" by code_simp
  have k3: "0 < length (ancestors hostABCD max_iter 3)" by code_simp
  have a4: "4 = ancestors hostABCD max_iter 4 ! 0" by code_simp
  have a3: "3 = ancestors hostABCD max_iter 3 ! 0" by code_simp
  have s4: "4 \<in> set (siblingsOf hostABCD 4)" by code_simp
  have s3: "3 \<in> set (siblingsOf hostABCD 3)" by code_simp
  have e4: "map (toDecl hostABCD) (concat (map (scopeAt hostABCD regABD) (take 0 (ancestors hostABCD max_iter 4))))
          @ map (toDecl hostABCD)
              (filter (isDeclared hostABCD regABD)
                 (take (Suc (nat (indexOf (siblingsOf hostABCD 4) 4))) (siblingsOf hostABCD 4)))
          @ map (toDecl hostABCD)
              (concat (map (scopeAt hostABCD regABD) (drop (Suc 0) (ancestors hostABCD max_iter 4))))
       = [decl ''a'', decl ''b'', decl ''d'']" by code_simp
  have e3: "map (toDecl hostABCD) (concat (map (scopeAt hostABCD regABD) (take 0 (ancestors hostABCD max_iter 3))))
          @ map (toDecl hostABCD)
              (filter (isDeclared hostABCD regABD)
                 (take (Suc (nat (indexOf (siblingsOf hostABCD 3) 3))) (siblingsOf hostABCD 3)))
          @ map (toDecl hostABCD)
              (concat (map (scopeAt hostABCD regABD) (drop (Suc 0) (ancestors hostABCD max_iter 3))))
       = [decl ''a'', decl ''b'']" by code_simp
  have sib4: "siblingsOf hostABCD 4 = [1, 2, 3, 4]" by code_simp
  have sib3: "siblingsOf hostABCD 3 = [1, 2, 3, 4]" by code_simp
  have reg: "regABD = [toDecl hostABCD 1, toDecl hostABCD 2, toDecl hostABCD 4]" by code_simp
  from siblings_up_to_index [OF ws p4 n4 k4 a4 s4, of regABD] e4
  have g4: "getAccessibleDeclarations hostABCD regABD 4 = Inr [decl ''a'', decl ''b'', decl ''d'']"
    by simp
  from siblings_up_to_index [OF ws p3 n3 k3 a3 s3, of regABD] e3
  have g3: "getAccessibleDeclarations hostABCD regABD 3 = Inr [decl ''a'', decl ''b'']"
    by simp
  from ws p4 p3 n4 n3 a4 a3 sib4 sib3 reg g4 g3 show ?thesis by simp
qed

subsection \<open>C2: a block with no parent\<close>

text \<open>
  Claim C2. For every block with no parent (\<open>block.getParent()\<close> is null),
  \<open>getAccessibleDeclarations\<close> returns the registry itself: all of it, in its order,
  whatever the top blocks of the workspace are. The registry is in insertion order:
  \<open>addInitialListValues\<close> and \<open>declare\<close> only append.
\<close>

theorem top_level_returns_registry:
  assumes "getParent (blockAt h block) = None"
  shows "getAccessibleDeclarations h this_list block = Inr this_list
    \<and> addInitialListValues this_list extra = this_list @ extra
    \<and> (\<exists>new. declare_block h b this_list = Inr (this_list @ new))"
proof -
  have "\<exists>new. declare_block h b this_list = Inr (this_list @ new)"
    by (auto simp: declare_block_def split: option.splits)
  with assms show ?thesis
    by (simp add: getAccessibleDeclarations_def addInitialListValues_def)
qed

theorem top_level_returns_registry_witness:
  "getParent (blockAt hostABCD 0) = None
   \<and> getTopBlocks (workspaceAt hostABCD 0) = [0, 6]
   \<and> getAccessibleDeclarations hostABCD [primitive ''PI'', decl ''t'', decl ''a''] 0
       = Inr [primitive ''PI'', decl ''t'', decl ''a'']"
proof -
  have p: "getParent (blockAt hostABCD 0) = None" by code_simp
  have t: "getTopBlocks (workspaceAt hostABCD 0) = [0, 6]" by code_simp
  from top_level_returns_registry [OF p] p t show ?thesis by simp
qed

subsection \<open>C3: the depth bound\<close>

text \<open>
  Claim C3. The loop makes at most \<open>max_iter = 100\<close> passes: it is a total function
  (its termination proof measures \<open>max_iter - iter\<close>) and its counter ends at 100 at
  most. For every block whose chain of ancestors has 100 members or more, in particular
  a chain deeper than the bound or a cyclic one, \<open>getAccessibleDeclarations\<close> never
  returns a scoped list: what it returns is the whole registry. It does return, without
  throwing, on every host whose blocks have workspaces (the loop reads
  \<open>b.workspace.id\<close> of a registered sibling).
\<close>

theorem depth_bound_fallback:
  assumes "nthAncestor h max_iter block \<noteq> None"
  shows "max_iter = 100
    \<and> (\<forall>parent it r. loop h this_list 0 block parent [] = Inr (it, r) \<longrightarrow> it \<le> 100)
    \<and> (\<forall>r. getAccessibleDeclarations h this_list block = Inr r \<longrightarrow> r = this_list)
    \<and> (hasWorkspaces h \<longrightarrow> getAccessibleDeclarations h this_list block = Inr this_list)"
proof -
  from assms obtain p where p: "getParent (blockAt h block) = Some p"
    by (cases "getParent (blockAt h block)") (simp_all add: max_iter_def eval_nat_numeral)
  have passes: "it \<le> 100" if "loop h this_list 0 block parent [] = Inr (it, r)" for parent it r
    using loop_iter_le [OF that] by (simp add: max_iter_def)
  have fallback: "r = this_list" if ret: "getAccessibleDeclarations h this_list block = Inr r" for r
  proof -
    from ret p obtain it r' where
      l: "loop h this_list 0 block (getParent (blockAt h block)) [] = Inr (it, r')"
      and r: "r = (if max_iter \<le> it then this_list else r')"
      by (auto simp: getAccessibleDeclarations_def split: sum.splits if_splits)
    from loop_bound [OF l] assms have "max_iter \<le> it" by simp
    with r show ?thesis by simp
  qed
  have total: "getAccessibleDeclarations h this_list block = Inr this_list" if "hasWorkspaces h"
  proof -
    from returns_Inr [OF that] obtain r where
      "getAccessibleDeclarations h this_list block = Inr r" by blast
    with fallback [OF this] show ?thesis by simp
  qed
  from passes fallback total show ?thesis by (simp add: max_iter_def)
qed

theorem depth_bound_fallback_witness:
  "hasWorkspaces hostCycle \<and> nthAncestor hostCycle max_iter 0 = Some 0
   \<and> getAccessibleDeclarations hostCycle [primitive ''PI'', decl ''b''] 0
        = Inr [primitive ''PI'', decl ''b'']
   \<and> hasWorkspaces hostDeep \<and> nthAncestor hostDeep max_iter 0 = Some 100
   \<and> getParent (blockAt hostDeep 100) = None
   \<and> getAccessibleDeclarations hostDeep [primitive ''PI'', decl ''b''] 0
        = Inr [primitive ''PI'', decl ''b'']"
proof -
  have wc: "hasWorkspaces hostCycle"
    by (simp add: hasWorkspaces_def hostCycle_def mkHost_def mkBlock_def)
  have wd: "hasWorkspaces hostDeep"
    by (simp add: hasWorkspaces_def hostDeep_def mkHost_def mkBlock_def)
  have nc: "nthAncestor hostCycle max_iter 0 = Some 0" by code_simp
  have nd: "nthAncestor hostDeep max_iter 0 = Some 100" by code_simp
  have top: "getParent (blockAt hostDeep 100) = None" by code_simp
  from nc have nc': "nthAncestor hostCycle max_iter 0 \<noteq> None" by simp
  from nd have nd': "nthAncestor hostDeep max_iter 0 \<noteq> None" by simp
  from depth_bound_fallback [OF nc', of "[primitive ''PI'', decl ''b'']"]
    depth_bound_fallback [OF nd', of "[primitive ''PI'', decl ''b'']"] wc wd nc nd top
  show ?thesis by simp
qed

subsection \<open>C4: declaring a block again\<close>

lemma declare_block_returns: "\<exists>list'. declare_block h block this_list = Inr list'"
  by (simp add: declare_block_def Let_def split: option.splits)

text \<open>A second call finds what the first one left and changes nothing, for every
  registry and every argument.\<close>

lemma declare_block_again:
  "declare_block h block this_list = Inr list' \<Longrightarrow> declare_block h block list' = Inr list'"
  by (auto simp: declare_block_def find_None_iff split: option.splits if_splits)

lemma declareTimes_fixed:
  "declare_block h block l = Inr l \<Longrightarrow> declareTimes h block n l = Inr l"
  by (induction n) simp_all

lemma declare_block_count:
  assumes "\<not> isInFlyout (blockAt h b)" and "workspace (blockAt h b) = Some w"
    and d: "declare_block h (Some b) this_list = Inr list'"
  shows "entriesFor h b list' = max 1 (entriesFor h b this_list)"
proof (cases "find (\<lambda>d. id_decl d = id_block (blockAt h b)) this_list")
  case None
  then have "filter (\<lambda>d. id_decl d = id_block (blockAt h b)) this_list = []"
    by (auto simp: find_None_iff filter_empty_conv)
  with None d assms(1) assms(2) show ?thesis by (auto simp: declare_block_def entriesFor_def)
next
  case (Some e)
  then have "e \<in> set this_list \<and> id_decl e = id_block (blockAt h b)"
    by (auto simp: find_Some_iff)
  then have "filter (\<lambda>d. id_decl d = id_block (blockAt h b)) this_list \<noteq> []"
    by (auto simp: filter_empty_conv)
  then have "1 \<le> entriesFor h b this_list"
    by (cases "filter (\<lambda>d. id_decl d = id_block (blockAt h b)) this_list")
      (simp_all add: entriesFor_def)
  with Some d assms(1) assms(2) show ?thesis by (auto simp: declare_block_def)
qed

text \<open>
  \<open>declare\<close> keeps the registry's invariant: an id that at most one entry carried
  is carried by at most one entry afterwards.
\<close>

lemma declare_block_keeps_unique:
  assumes "declare_block h block this_list = Inr list'"
    and "length (filter (\<lambda>d. id_decl d = i) this_list) \<le> 1"
  shows "length (filter (\<lambda>d. id_decl d = i) list') \<le> 1"
proof (cases "list' = this_list")
  case True
  with assms(2) show ?thesis by simp
next
  case False
  with assms(1) obtain b w where
    none: "find (\<lambda>d. id_decl d = id_block (blockAt h b)) this_list = None"
    and l: "list' = this_list @
       [\<lparr>id_decl = id_block (blockAt h b), wid = id_ws (workspaceAt h w), name = None\<rparr>]"
    by (auto simp: declare_block_def split: option.splits if_splits)
  from none have "filter (\<lambda>d. id_decl d = id_block (blockAt h b)) this_list = []"
    by (auto simp: find_None_iff filter_empty_conv)
  with l assms(2) show ?thesis by (cases "i = id_block (blockAt h b)") simp_all
qed

text \<open>
  Claim C4. \<open>declare\<close> is idempotent per block identifier. For every registry that
  satisfies the registry's invariant for the block's id (at most one entry carries it)
  and every valid block (not null, outside the flyout, with a workspace), the first
  call returns a registry with exactly one entry of that id, a second call on it changes
  nothing, and any number of calls in a row, one or more, ends in that same registry.
\<close>

theorem declare_idempotent:
  assumes "\<not> isInFlyout (blockAt h b)"
    and "workspace (blockAt h b) = Some w"
    and "entriesFor h b this_list \<le> 1"
  shows "\<exists>list'. declare_block h (Some b) this_list = Inr list'
     \<and> entriesFor h b list' = 1
     \<and> declare_block h (Some b) list' = Inr list'
     \<and> declareTimes h (Some b) (Suc n) this_list = Inr list'"
proof -
  from declare_block_returns obtain list' where
    d: "declare_block h (Some b) this_list = Inr list'" by blast
  from declare_block_again [OF d] have again: "declare_block h (Some b) list' = Inr list'" .
  from declareTimes_fixed [OF again] d
  have times: "declareTimes h (Some b) (Suc n) this_list = Inr list'" by simp
  from declare_block_count [OF assms(1) assms(2) d] assms(3)
  have "entriesFor h b list' = 1" by (simp add: max_def)
  with d again times show ?thesis by blast
qed

theorem declare_idempotent_witness:
  "\<not> isInFlyout (blockAt hostTop 1) \<and> workspace (blockAt hostTop 1) = Some 0
   \<and> entriesFor hostTop 1 [primitive ''PI''] = 0
   \<and> declare_block hostTop (Some 1) [primitive ''PI''] = Inr [primitive ''PI'', decl ''b1'']
   \<and> entriesFor hostTop 1 [primitive ''PI'', decl ''b1''] = 1
   \<and> declare_block hostTop (Some 1) [primitive ''PI'', decl ''b1'']
        = Inr [primitive ''PI'', decl ''b1'']
   \<and> declareTimes hostTop (Some 1) (Suc 2) [primitive ''PI'']
        = Inr [primitive ''PI'', decl ''b1'']"
proof -
  have f: "\<not> isInFlyout (blockAt hostTop 1)" by code_simp
  have w: "workspace (blockAt hostTop 1) = Some 0" by code_simp
  have c: "entriesFor hostTop 1 [primitive ''PI''] = 0" by code_simp
  then have c': "entriesFor hostTop 1 [primitive ''PI''] \<le> 1" by simp
  have d: "declare_block hostTop (Some 1) [primitive ''PI''] = Inr [primitive ''PI'', decl ''b1'']"
    by code_simp
  from declare_idempotent [OF f w c', of 2] d f w c show ?thesis by auto
qed

subsection \<open>C5: a block that is not among its siblings\<close>

text \<open>
  Claim C5. On a walk that ends within the bound, at every level \<open>k\<close> at which the
  current block \<open>a\<close> is not in the sibling list computed for it (\<open>indexOf\<close> is \<open>-1\<close>),
  \<open>getAccessibleDeclarations\<close> contributes all registered siblings of that level, in
  sibling order.
\<close>

theorem not_found_takes_all:
  assumes "hasWorkspaces h"
    and "getParent (blockAt h block) \<noteq> None"
    and "nthAncestor h max_iter block = None"
    and "k < length (ancestors h max_iter block)"
    and "a = ancestors h max_iter block ! k"
    and "a \<notin> set (siblingsOf h a)"
  shows "indexOf (siblingsOf h a) a = -1 \<and>
     getAccessibleDeclarations h this_list block =
     Inr (map (toDecl h) (concat (map (scopeAt h this_list) (take k (ancestors h max_iter block))))
          @ map (toDecl h) (filter (isDeclared h this_list) (siblingsOf h a))
          @ map (toDecl h)
              (concat (map (scopeAt h this_list) (drop (Suc k) (ancestors h max_iter block)))))"
proof -
  from assms(5) assms(6)
  have "scopeAt h this_list (ancestors h max_iter block ! k)
      = filter (isDeclared h this_list) (siblingsOf h a)"
    by (simp add: scopeAt_def upTo_def)
  with levels_split [OF assms(4), of "toDecl h" "scopeAt h this_list"]
    scoped_total [OF assms(1) assms(2) assms(3), of this_list] assms(6)
  show ?thesis by (simp add: indexOf_absent)
qed

theorem not_found_takes_all_witness:
  "hasWorkspaces hostABCD
   \<and> getParent (blockAt hostABCD 5) = Some 0
   \<and> nthAncestor hostABCD max_iter 5 = None
   \<and> ancestors hostABCD max_iter 5 = [5, 0]
   \<and> siblingsOf hostABCD 5 = [1, 2, 3, 4]
   \<and> indexOf (siblingsOf hostABCD 5) 5 = -1
   \<and> getAccessibleDeclarations hostABCD regABD 5 = Inr [decl ''a'', decl ''b'', decl ''d'']"
proof -
  have ws: "hasWorkspaces hostABCD"
    by (simp add: hasWorkspaces_def hostABCD_def mkHost_def mkBlock_def)
  have p: "getParent (blockAt hostABCD 5) = Some 0" by code_simp
  then have p': "getParent (blockAt hostABCD 5) \<noteq> None" by simp
  have n: "nthAncestor hostABCD max_iter 5 = None" by code_simp
  have as: "ancestors hostABCD max_iter 5 = [5, 0]" by code_simp
  then have k: "0 < length (ancestors hostABCD max_iter 5)"
    and a: "5 = ancestors hostABCD max_iter 5 ! 0" by simp_all
  have sib: "siblingsOf hostABCD 5 = [1, 2, 3, 4]" by code_simp
  then have s: "5 \<notin> set (siblingsOf hostABCD 5)" by simp
  have e: "map (toDecl hostABCD) (concat (map (scopeAt hostABCD regABD) (take 0 (ancestors hostABCD max_iter 5))))
          @ map (toDecl hostABCD) (filter (isDeclared hostABCD regABD) (siblingsOf hostABCD 5))
          @ map (toDecl hostABCD)
              (concat (map (scopeAt hostABCD regABD) (drop (Suc 0) (ancestors hostABCD max_iter 5))))
       = [decl ''a'', decl ''b'', decl ''d'']" by code_simp
  from not_found_takes_all [OF ws p' n k a s, of regABD] e
  have "indexOf (siblingsOf hostABCD 5) 5 = -1
    \<and> getAccessibleDeclarations hostABCD regABD 5 = Inr [decl ''a'', decl ''b'', decl ''d'']"
    by simp
  with ws p n as sib show ?thesis by simp
qed

subsection \<open>C6: the end-to-end scenario\<close>

text \<open>
  Claim C6, as stated, fails in its second half: from the getter nested after \<open>b1\<close>
  the result is \<open>[b1]\<close>, without the primitive \<open>PI\<close>. The loop builds its result from
  sibling blocks only; the registry's primitives have no block.
\<close>

theorem end_to_end_counterexample:
  "declare_block hostTop (Some 1) (addInitialListValues [] [primitive ''PI''])
       = Inr [primitive ''PI'', decl ''b1'']
   \<and> getParent (blockAt hostNested 3) = Some 0
   \<and> getChildren (blockAt hostNested 0) = [1, 3]
   \<and> id_block (blockAt hostNested 1) = id_block (blockAt hostTop 1)
   \<and> getAccessibleDeclarations hostNested [primitive ''PI'', decl ''b1''] 3 = Inr [decl ''b1'']
   \<and> getAccessibleDeclarations hostNested [primitive ''PI'', decl ''b1''] 3
       \<noteq> Inr [primitive ''PI'', decl ''b1'']"
  by code_simp

text \<open>
  Claim C6, amended. After seeding the registry with the primitive \<open>PI\<close> and declaring
  the valid block \<open>b1\<close>, the registry is \<open>[PI, b1]\<close>, and a query from a block with no
  parent returns \<open>[PI, b1]\<close>. Once a block \<open>p\<close>, the only top block, holds the sequence
  \<open>b1\<close>, getter, a query from the getter returns \<open>[b1]\<close>: the primitive is not part of
  a nested result. (Neither \<open>p\<close> nor the getter is registered, and ids are not empty.)
\<close>

theorem end_to_end:
  assumes "\<not> isInFlyout (blockAt h b1)"
    and "workspace (blockAt h b1) = Some w"
    and "id_block (blockAt h b1) \<noteq> []"
    and "getParent (blockAt h q) = None"
    and "getParent (blockAt h' getter) = Some p"
    and "getChildren (blockAt h' p) = [b1, getter]"
    and "b1 \<noteq> getter"
    and "getParent (blockAt h' p) = None"
    and "workspace (blockAt h' p) = Some w'"
    and "getTopBlocks (workspaceAt h' w') = [p]"
    and "workspace (blockAt h' b1) = Some w1"
    and "id_block (blockAt h' b1) = id_block (blockAt h b1)"
    and "id_block (blockAt h' getter) \<noteq> []"
    and "id_block (blockAt h' getter) \<noteq> id_block (blockAt h b1)"
    and "id_block (blockAt h' p) \<noteq> []"
    and "id_block (blockAt h' p) \<noteq> id_block (blockAt h b1)"
  shows "declare_block h (Some b1) (addInitialListValues [] [primitive ''PI''])
       = Inr [primitive ''PI'', toDecl h b1]
    \<and> getAccessibleDeclarations h [primitive ''PI'', toDecl h b1] q
       = Inr [primitive ''PI'', toDecl h b1]
    \<and> getAccessibleDeclarations h' [primitive ''PI'', toDecl h b1] getter
       = Inr [toDecl h' b1]"
proof -
  let ?reg = "[primitive ''PI'', toDecl h b1]"
  have decl: "declare_block h (Some b1) (addInitialListValues [] [primitive ''PI'']) = Inr ?reg"
    using assms(1-3)
    by (simp add: declare_block_def addInitialListValues_def primitive_def toDecl_def)
  have top: "getAccessibleDeclarations h ?reg q = Inr ?reg"
    using assms(4) by (simp add: getAccessibleDeclarations_def)
  have d_b1: "isDeclared h' ?reg b1"
    using assms(12) by (simp add: isDeclared_iff toDecl_def)
  have d_g: "\<not> isDeclared h' ?reg getter"
    using assms(13) assms(14) by (simp add: isDeclared_iff toDecl_def primitive_def)
  have d_p: "\<not> isDeclared h' ?reg p"
    using assms(15) assms(16) by (simp add: isDeclared_iff toDecl_def primitive_def)
  have "indexOf [b1, getter] getter = 1"
    using assms(7) by simp
  then have l0: "levelVars h' ?reg [b1, getter] getter = Inr [toDecl h' b1]"
    using d_b1 d_g assms(11) by (simp add: levelVars_upTo upTo_def toDecl_def)
  have l1: "levelVars h' ?reg [p] p = Inr []"
    using d_p by (simp add: levelVars_upTo upTo_def)
  have pass1: "loop h' ?reg (Suc 0) p None [toDecl h' b1] = Inr (Suc 0, [toDecl h' b1])"
    using assms(9) assms(10) l1 by (subst loop.simps) (simp add: max_iter_def)
  have "loop h' ?reg 0 getter (Some p) [] = Inr (Suc 0, [toDecl h' b1])"
    using assms(6) assms(8) l0 pass1 by (subst loop.simps) (simp add: max_iter_def)
  then have nested: "getAccessibleDeclarations h' ?reg getter = Inr [toDecl h' b1]"
    using assms(5) by (simp add: getAccessibleDeclarations_def max_iter_def)
  from decl top nested show ?thesis by simp
qed

theorem end_to_end_witness:
  "\<not> isInFlyout (blockAt hostTop 1) \<and> workspace (blockAt hostTop 1) = Some 0
   \<and> getParent (blockAt hostTop 2) = None
   \<and> getParent (blockAt hostNested 3) = Some 0
   \<and> getChildren (blockAt hostNested 0) = [1, 3]
   \<and> getTopBlocks (workspaceAt hostNested 0) = [0]
   \<and> toDecl hostTop 1 = decl ''b1'' \<and> toDecl hostNested 1 = decl ''b1''
   \<and> declare_block hostTop (Some 1) (addInitialListValues [] [primitive ''PI''])
       = Inr [primitive ''PI'', decl ''b1'']
   \<and> getAccessibleDeclarations hostTop [primitive ''PI'', decl ''b1''] 2
       = Inr [primitive ''PI'', decl ''b1'']
   \<and> getAccessibleDeclarations hostNested [primitive ''PI'', decl ''b1''] 3
       = Inr [decl ''b1'']"
proof -
  have a1: "\<not> isInFlyout (blockAt hostTop 1)" by code_simp
  have a2: "workspace (blockAt hostTop 1) = Some 0" by code_simp
  have a3: "id_block (blockAt hostTop 1) \<noteq> []" by code_simp
  have a4: "getParent (blockAt hostTop 2) = None" by code_simp
  have a5: "getParent (blockAt hostNested 3) = Some 0" by code_simp
  have a6: "getChildren (blockAt hostNested 0) = [1, 3]" by code_simp
  have a7: "(1::nat) \<noteq> 3" by simp
  have a8: "getParent (blockAt hostNested 0) = None" by code_simp
  have a9: "workspace (blockAt hostNested 0) = Some 0" by code_simp
  have a10: "getTopBlocks (workspaceAt hostNested 0) = [0]" by code_simp
  have a11: "workspace (blockAt hostNested 1) = Some 0" by code_simp
  have a12: "id_block (blockAt hostNested 1) = id_block (blockAt hostTop 1)" by code_simp
  have a13: "id_block (blockAt hostNested 3) \<noteq> []" by code_simp
  have a14: "id_block (blockAt hostNested 3) \<noteq> id_block (blockAt hostTop 1)" by code_simp
  have a15: "id_block (blockAt hostNested 0) \<noteq> []" by code_simp
  have a16: "id_block (blockAt hostNested 0) \<noteq> id_block (blockAt hostTop 1)" by code_simp
  have t1: "toDecl hostTop 1 = decl ''b1''" by code_simp
  have t2: "toDecl hostNested 1 = decl ''b1''" by code_simp
  from end_to_end [OF a1 a2 a3 a4 a5 a6 a7 a8 a9 a10 a11 a12 a13 a14 a15 a16]
    a1 a2 a4 a5 a6 a10 t1 t2
  show ?thesis by simp
qed

subsection \<open>C7: invalid arguments of declare\<close>

text \<open>
  Claim C7. \<open>declare\<close> called with null, with a block in the flyout or with a block
  that has no workspace returns normally and leaves the registry as it was.
\<close>

theorem declare_invalid_noop:
  assumes "block = None
    \<or> (\<exists>b. block = Some b \<and> (isInFlyout (blockAt h b) \<or> workspace (blockAt h b) = None))"
  shows "declare_block h block this_list = Inr this_list"
  using assms by (auto simp: declare_block_def)

theorem declare_invalid_noop_witness:
  "isInFlyout (blockAt hostTop 3) \<and> workspace (blockAt hostTop 4) = None
   \<and> declare_block hostTop None [primitive ''PI''] = Inr [primitive ''PI'']
   \<and> declare_block hostTop (Some 3) [primitive ''PI''] = Inr [primitive ''PI'']
   \<and> declare_block hostTop (Some 4) [primitive ''PI''] = Inr [primitive ''PI'']"
proof -
  have f: "isInFlyout (blockAt hostTop 3)" by code_simp
  have w: "workspace (blockAt hostTop 4) = None" by code_simp
  from f w declare_invalid_noop [of None hostTop "[primitive ''PI'']"]
    declare_invalid_noop [of "Some 3" hostTop "[primitive ''PI'']"]
    declare_invalid_noop [of "Some 4" hostTop "[primitive ''PI'']"]
  show ?thesis by simp
qed

subsection \<open>C8: the name check that never takes effect\<close>

text \<open>
  Claim C8. For every valid block whose id is not yet registered, \<open>declare\<close> appends
  the entry \<open>{id, wid}\<close>, whatever \<open>samename\<close> found: also when a registered block of the
  same workspace has the same value in its field \<open>name\<close> (the example that follows).
\<close>

theorem declare_appends_despite_same_name:
  assumes "\<not> isInFlyout (blockAt h b)"
    and "workspace (blockAt h b) = Some w"
    and "id_block (blockAt h b) \<notin> id_decl ` set this_list"
  shows "declare_block h (Some b) this_list =
     Inr (this_list @
       [\<lparr>id_decl = id_block (blockAt h b), wid = id_ws (workspaceAt h w), name = None\<rparr>])"
proof -
  from assms(3) have "find (\<lambda>d. id_decl d = id_block (blockAt h b)) this_list = None"
    by (force simp: find_None_iff)
  with assms(1) assms(2) show ?thesis by (simp add: declare_block_def)
qed

theorem declare_appends_despite_same_name_witness:
  "\<not> isInFlyout (blockAt hostTop 2) \<and> workspace (blockAt hostTop 2) = Some 0
   \<and> getFieldValue (blockAt hostTop 1) ''name'' = getFieldValue (blockAt hostTop 2) ''name''
   \<and> samename hostTop 0 (getFieldValue (blockAt hostTop 2) ''name'') [primitive ''PI'', decl ''b1'']
        = Some (decl ''b1'')
   \<and> declare_block hostTop (Some 2) [primitive ''PI'', decl ''b1'']
        = Inr [primitive ''PI'', decl ''b1'', decl ''b2'']"
proof -
  have f: "\<not> isInFlyout (blockAt hostTop 2)" by code_simp
  have w: "workspace (blockAt hostTop 2) = Some 0" by code_simp
  have n: "id_block (blockAt hostTop 2) \<notin> id_decl ` set [primitive ''PI'', decl ''b1'']"
    by code_simp
  have same: "getFieldValue (blockAt hostTop 1) ''name'' = getFieldValue (blockAt hostTop 2) ''name''"
    by code_simp
  have s: "samename hostTop 0 (getFieldValue (blockAt hostTop 2) ''name'')
      [primitive ''PI'', decl ''b1''] = Some (decl ''b1'')" by code_simp
  have e: "[primitive ''PI'', decl ''b1'']
      @ [\<lparr>id_decl = id_block (blockAt hostTop 2), wid = id_ws (workspaceAt hostTop 0), name = None\<rparr>]
      = [primitive ''PI'', decl ''b1'', decl ''b2'']" by code_simp
  from declare_appends_despite_same_name [OF f w n] e f w same s show ?thesis by simp
qed

subsection \<open>C9: primitives in the category\<close>









subsection \<open>C10: the entries of a nested result\<close>

text \<open>
  Claim C10. When the queried block has a parent and the walk ends within the bound,
  every entry of the result carries no name, is no primitive, and has the id of a
  sibling block, at some level of the walk, whose id is registered. The entry's id is
  not empty on a host that gives no block the empty id (the registry reserves the empty
  id for primitives, which have no block).
\<close>

theorem nested_result_entries:
  assumes "getAccessibleDeclarations h this_list block = Inr r"
    and "getParent (blockAt h block) \<noteq> None"
    and "nthAncestor h max_iter block = None"
    and "d \<in> set r"
  shows "name d = None \<and> \<not> isPrimitive d
    \<and> (\<exists>a \<in> set (ancestors h max_iter block). \<exists>s \<in> set (siblingsOf h a).
          id_decl d = id_block (blockAt h s) \<and> wid d = wid (toDecl h s)
          \<and> id_decl d \<in> id_decl ` set this_list)
    \<and> ((\<forall>b. id_block (blockAt h b) \<noteq> []) \<longrightarrow> id_decl d \<noteq> [])"
proof -
  from scoped_result [OF assms(1) assms(2) assms(3)] assms(4)
  obtain a s where a: "a \<in> set (ancestors h max_iter block)"
    and s: "s \<in> set (scopeAt h this_list a)" and d: "d = toDecl h s"
    by auto
  from s have reg: "isDeclared h this_list s" and "s \<in> set (upTo (siblingsOf h a) a)"
    by (simp_all add: scopeAt_def)
  then have sib: "s \<in> set (siblingsOf h a)"
    by (auto simp: upTo_def split: if_splits dest: in_set_takeD)
  from d have n: "name d = None" and i: "id_decl d = id_block (blockAt h s)"
    by (simp_all add: toDecl_def)
  from n have "\<not> isPrimitive d" by (simp add: isPrimitive_def)
  moreover from i have "(\<forall>b. id_block (blockAt h b) \<noteq> []) \<longrightarrow> id_decl d \<noteq> []" by simp
  moreover from reg i have "id_decl d \<in> id_decl ` set this_list" by (simp add: isDeclared_iff)
  ultimately show ?thesis using n i a sib d by blast
qed

theorem nested_result_entries_witness:
  "getAccessibleDeclarations hostABCD (primitive ''PI'' # regABD) 4
       = Inr [decl ''a'', decl ''b'', decl ''d'']
   \<and> getParent (blockAt hostABCD 4) = Some 0
   \<and> nthAncestor hostABCD max_iter 4 = None
   \<and> name (decl ''d'') = None \<and> id_decl (decl ''d'') \<noteq> [] \<and> \<not> isPrimitive (decl ''d'')
   \<and> id_decl (decl ''d'') = id_block (blockAt hostABCD 4)
   \<and> 4 \<in> set (siblingsOf hostABCD 4)
   \<and> isPrimitive (primitive ''PI'')"
proof -
  have g: "getAccessibleDeclarations hostABCD (primitive ''PI'' # regABD) 4
       = Inr [decl ''a'', decl ''b'', decl ''d'']" by code_simp
  have p: "getParent (blockAt hostABCD 4) = Some 0" by code_simp
  then have p': "getParent (blockAt hostABCD 4) \<noteq> None" by simp
  have n: "nthAncestor hostABCD max_iter 4 = None" by code_simp
  have ids: "\<forall>b. id_block (blockAt hostABCD b) \<noteq> []"
    by (simp add: hostABCD_def mkHost_def mkBlock_def)
  have m: "decl ''d'' \<in> set [decl ''a'', decl ''b'', decl ''d'']" by simp
  have i: "id_decl (decl ''d'') = id_block (blockAt hostABCD 4)" by code_simp
  have s: "4 \<in> set (siblingsOf hostABCD 4)" by code_simp
  have pi: "isPrimitive (primitive ''PI'')" by code_simp
  from nested_result_entries [OF g p' n m] ids g p n i s pi show ?thesis by simp
qed

end
